theory Spec2Isabelle
  imports Main "HOL-Library.Word"
begin

section \<open>The token bucket of TokenBucketAlgorithm.cpp\<close>

text \<open>
  The class \<^verbatim>\<open>TokenBucket\<close> holds two \<^verbatim>\<open>int\<close> members (\<^verbatim>\<open>max_counter_\<close>,
  \<^verbatim>\<open>counter_\<close>), the flag \<^verbatim>\<open>exit_\<close>, a mutex, a condition variable and the thread
  \<^verbatim>\<open>refiller_\<close> that runs \<^verbatim>\<open>refill(refillFrequencySeconds)\<close>.

  \<^item> An \<^verbatim>\<open>int\<close> is a 32-bit word read in two's complement (\<open>sint\<close>). The only
    arithmetic of the class is \<^verbatim>\<open>--counter_\<close>; on the word it wraps from \<open>-2^31\<close> to
    \<open>2^31 - 1\<close>, the one place where C++ leaves the result of the decrement undefined.
  \<^item> The members are written here without their trailing underscore, which an Isabelle
    name cannot end with.
  \<^item> Every access to \<^verbatim>\<open>counter_\<close> and \<^verbatim>\<open>exit_\<close> happens while \<^verbatim>\<open>counter_mutex_\<close> is
    held, so each critical section is one atomic step on the shared fields; the mutex and
    the condition variable carry no data of their own. The refill thread is its argument
    and the place in \<^verbatim>\<open>refill\<close> where it stands.
  \<^item> The line that \<^verbatim>\<open>refill\<close> writes to \<^verbatim>\<open>std::cout\<close> after a refill touches no member
    and is left out.
\<close>

type_synonym cint = "32 word"

datatype position =
    LoopTop   \<comment> \<open>about to lock the mutex at the head of \<^verbatim>\<open>while (true)\<close>\<close>
  | InWait    \<comment> \<open>inside \<^verbatim>\<open>wait_for\<close>, the mutex released\<close>
  | Returned  \<comment> \<open>\<^verbatim>\<open>refill\<close> has executed \<^verbatim>\<open>return\<close>\<close>

record refill_thread =
  refillFrequencySeconds :: cint
  at :: position

record TokenBucket =
  max_counter :: cint
  counter :: cint
  exit :: bool
  refiller :: refill_thread

subsection \<open>Constructor\<close>

text \<open>
  \<^verbatim>\<open>TokenBucket(int size, int refillFrequencySeconds)\<close>: both counters take \<^verbatim>\<open>size\<close>,
  \<^verbatim>\<open>exit_\<close> has its default \<^verbatim>\<open>false\<close>, the thread is started on \<^verbatim>\<open>refill\<close>. The
  constructor tests neither argument.

  The members are initialised in the order of their declaration, so the thread object
  is created before \<^verbatim>\<open>exit_\<close> and the condition variable are. The model takes the
  thread's first step to come once the constructor has finished: the thread stands at
  the head of its loop and \<^verbatim>\<open>exit_\<close> is clear.
\<close>

definition TokenBucket :: "cint \<Rightarrow> cint \<Rightarrow> TokenBucket" where
  "TokenBucket size' refillFrequencySeconds' =
     \<lparr> max_counter = size',
       counter = size',
       exit = False,
       refiller = \<lparr> refillFrequencySeconds = refillFrequencySeconds', at = LoopTop \<rparr> \<rparr>"

subsection \<open>request\<close>

text \<open>
  \<^verbatim>\<open>bool request()\<close>: under the lock, \<^verbatim>\<open>if (counter_ != 0) { --counter_; result = true; }\<close>.
\<close>

definition request :: "TokenBucket \<Rightarrow> bool \<times> TokenBucket" where
  "request s =
     (if counter s \<noteq> 0 then (True, s\<lparr>counter := counter s - 1\<rparr>) else (False, s))"

subsection \<open>refill\<close>

text \<open>
  One step of the thread running \<^verbatim>\<open>refill\<close>, from one release of the mutex to the next.

  \<^item> At the head of the loop it locks and tests \<^verbatim>\<open>exit_\<close>: set, it returns; clear,
    \<^verbatim>\<open>wait_for\<close> finds its predicate false and blocks, releasing the mutex.
  \<^item> Inside \<^verbatim>\<open>wait_for(lock, d, pred)\<close> it wakes holding the mutex again. With a predicate
    the call is \<^verbatim>\<open>while (!pred()) if (wait_until(..) == timeout) return pred(); return true;\<close>
    so with \<^verbatim>\<open>exit_\<close> set it yields true and \<^verbatim>\<open>refill\<close> returns; with \<^verbatim>\<open>exit_\<close> clear a
    timeout yields false, and \<^verbatim>\<open>counter_ = max_counter_\<close> runs under the same lock before
    the loop starts over; any other wake-up blocks again.
  \<^item> After \<^verbatim>\<open>return\<close> the thread does nothing.

  Time is not modelled: the wake-up says whether the period had elapsed. A period that is
  zero or negative makes every wake-up a timeout.
\<close>

datatype wake = TimedOut | Notified

definition refill_step :: "wake \<Rightarrow> TokenBucket \<Rightarrow> TokenBucket" where
  "refill_step w s =
     (case at (refiller s) of
        LoopTop \<Rightarrow>
          if exit s then s\<lparr>refiller := (refiller s)\<lparr>at := Returned\<rparr>\<rparr>
          else s\<lparr>refiller := (refiller s)\<lparr>at := InWait\<rparr>\<rparr>
      | InWait \<Rightarrow>
          if exit s then s\<lparr>refiller := (refiller s)\<lparr>at := Returned\<rparr>\<rparr>
          else (case w of
                  TimedOut \<Rightarrow>
                    s\<lparr>counter := max_counter s, refiller := (refiller s)\<lparr>at := LoopTop\<rparr>\<rparr>
                | Notified \<Rightarrow> s)
      | Returned \<Rightarrow> s)"

subsection \<open>Destructor\<close>

text \<open>
  \<^verbatim>\<open>~TokenBucket()\<close>: under the lock \<^verbatim>\<open>exit_ = true\<close>; then \<^verbatim>\<open>notify_one\<close> and
  \<^verbatim>\<open>refiller_.join()\<close>. \<open>join\<close> blocks while the thread has not returned; the list is
  the wake-ups the thread still gets (\<^verbatim>\<open>notify_one\<close> gives a waiting thread one), and
  \<open>None\<close> says that \<open>join\<close> is still blocked when they are used up.
\<close>

definition set_exit :: "TokenBucket \<Rightarrow> TokenBucket" where
  "set_exit s = s\<lparr>exit := True\<rparr>"

fun join :: "wake list \<Rightarrow> TokenBucket \<Rightarrow> TokenBucket option" where
  "join [] s = (if at (refiller s) = Returned then Some s else None)"
| "join (w # ws) s =
     (if at (refiller s) = Returned then Some s else join ws (refill_step w s))"

definition destructor :: "wake list \<Rightarrow> TokenBucket \<Rightarrow> TokenBucket option" where
  "destructor ws s = join ws (set_exit s)"

subsection \<open>Interleavings\<close>

text \<open>
  The callers, the refill thread and the destructor interleave at the granularity of
  the critical sections. A run is the list of who takes the mutex next; it returns the
  results of the \<^verbatim>\<open>request\<close> calls in order, and the state at the end.
\<close>

datatype event =
    Request          \<comment> \<open>a caller runs \<^verbatim>\<open>request()\<close>\<close>
  | Refiller wake    \<comment> \<open>the refill thread takes its next step\<close>
  | Shutdown         \<comment> \<open>the destructor sets \<^verbatim>\<open>exit_\<close>\<close>

fun step :: "event \<Rightarrow> TokenBucket \<Rightarrow> bool list \<times> TokenBucket" where
  "step Request s = (case request s of (r, s') \<Rightarrow> ([r], s'))"
| "step (Refiller w) s = ([], refill_step w s)"
| "step Shutdown s = ([], set_exit s)"

fun exec :: "event list \<Rightarrow> TokenBucket \<Rightarrow> bool list \<times> TokenBucket" where
  "exec [] s = ([], s)"
| "exec (e # es) s =
     (case step e s of (rs, s') \<Rightarrow>
        (case exec es s' of (rs', s'') \<Rightarrow> (rs @ rs', s'')))"

text \<open>The number of \<^verbatim>\<open>request\<close> calls in a run, and the steps that are the refill thread's.\<close>

fun calls :: "event list \<Rightarrow> nat" where
  "calls [] = 0"
| "calls (Request # es) = Suc (calls es)"
| "calls (e # es) = calls es"

fun is_refiller :: "event \<Rightarrow> bool" where
  "is_refiller (Refiller w) = True"
| "is_refiller e = False"

text \<open>The members that callers, the refill thread and the destructor share under the mutex.\<close>

definition shared :: "TokenBucket \<Rightarrow> cint \<times> cint \<times> bool" where
  "shared s = (max_counter s, counter s, exit s)"

text \<open>
  A run is free of overflow when no \<^verbatim>\<open>request\<close> in it is made while the count is
  \<open>-2^31\<close>, the one value at which \<^verbatim>\<open>--counter_\<close> leaves the range of \<^verbatim>\<open>int\<close>.
\<close>

fun overflow_free :: "event list \<Rightarrow> TokenBucket \<Rightarrow> bool" where
  "overflow_free [] s = True"
| "overflow_free (Request # es) s =
     (sint (counter s) \<noteq> - 2147483648 \<and> overflow_free es (snd (request s)))"
| "overflow_free (Refiller w # es) s = overflow_free es (refill_step w s)"
| "overflow_free (Shutdown # es) s = overflow_free es (set_exit s)"

text \<open>The invariant of the specification: \<open>0 \<le> tokens \<le> capacity\<close>.\<close>

definition tokens_in_range :: "TokenBucket \<Rightarrow> bool" where
  "tokens_in_range s \<longleftrightarrow> 0 \<le> sint (counter s) \<and> sint (counter s) \<le> sint (max_counter s)"

section \<open>Arithmetic of the decrement\<close>

lemma sint_dec:
  fixes c :: cint
  assumes "sint c \<noteq> - 2147483648"
  shows "sint (c - 1) = sint c - 1"
proof -
  have lo: "- 2147483648 \<le> sint c" using sint_ge [of c] by simp
  have hi: "sint c < 2147483648" using sint_lt [of c] by simp
  have "sint (c - 1) = signed_take_bit 31 (sint c - 1)"
    by (simp add: sint_word_diff)
  also have "\<dots> = sint c - 1"
    using lo hi assms by (intro signed_take_bit_int_eq_self) simp_all
  finally show ?thesis .
qed

lemma sint_pos_nonzero:
  fixes c :: cint
  shows "0 < sint c \<Longrightarrow> c \<noteq> 0"
  by auto

lemma sint_zero_iff:
  fixes c :: cint
  shows "sint c = 0 \<longleftrightarrow> c = 0"
  by (rule signed_eq_0_iff)

lemma uint_of_nonneg:
  fixes c :: cint
  assumes "0 \<le> sint c"
  shows "uint c = sint c"
proof -
  have "sint c < 2 ^ 32" using sint_lt [of c] by simp
  then have "take_bit 32 (sint c) = sint c"
    using assms by (intro take_bit_int_eq_self)
  then show ?thesis by (simp add: uint_sint)
qed

lemma unat_of_nonneg:
  fixes c :: cint
  assumes "0 \<le> sint c"
  shows "unat c = nat (sint c)"
  using uint_of_nonneg [OF assms] by (simp add: unat_eq_nat_uint)

lemma uint_of_neg:
  fixes c :: cint
  assumes "sint c < 0"
  shows "uint c = sint c + 4294967296"
proof -
  have lo: "- 2147483648 \<le> sint c" using sint_ge [of c] by simp
  have "uint c = sint c mod 4294967296"
    by (simp add: uint_sint take_bit_eq_mod)
  also have "\<dots> = (sint c + 4294967296) mod 4294967296" by simp
  also have "\<dots> = sint c + 4294967296"
    using lo assms by (intro mod_pos_pos_trivial) simp_all
  finally show ?thesis .
qed

text \<open>\<open>k\<close> decrements in a row stay exact while they do not pass \<open>-2^31\<close>.\<close>

lemma sint_sub_nat:
  fixes c :: cint
  shows "int k \<le> sint c + 2147483648 \<Longrightarrow> sint (c - of_nat k) = sint c - int k"
proof (induction k)
  case 0
  then show ?case by simp
next
  case (Suc k)
  then have IH: "sint (c - of_nat k) = sint c - int k" by simp
  with Suc.prems have "sint (c - of_nat k) \<noteq> - 2147483648" by simp
  then have "sint (c - of_nat k - 1) = sint (c - of_nat k) - 1" by (rule sint_dec)
  moreover have "c - of_nat (Suc k) = c - of_nat k - 1" by simp
  ultimately have "sint (c - of_nat (Suc k)) = sint (c - of_nat k) - 1" by (simp only:)
  with IH show ?case by simp
qed

section \<open>Single operations\<close>

lemma request_true:
  "counter s \<noteq> 0 \<Longrightarrow> request s = (True, s\<lparr>counter := counter s - 1\<rparr>)"
  by (simp add: request_def)

lemma request_false: "counter s = 0 \<Longrightarrow> request s = (False, s)"
  by (simp add: request_def)

lemma refill_step_exit:
  "exit s \<Longrightarrow> at (refiller s) \<noteq> Returned \<Longrightarrow>
     refill_step w s = s\<lparr>refiller := (refiller s)\<lparr>at := Returned\<rparr>\<rparr>"
  by (cases "at (refiller s)") (simp_all add: refill_step_def)

lemma refill_step_Returned: "at (refiller s) = Returned \<Longrightarrow> refill_step w s = s"
  by (simp add: refill_step_def)

lemma refill_step_timeout:
  "at (refiller s) = InWait \<Longrightarrow> \<not> exit s \<Longrightarrow>
     refill_step TimedOut s = s\<lparr>counter := max_counter s, refiller := (refiller s)\<lparr>at := LoopTop\<rparr>\<rparr>"
  by (simp add: refill_step_def)

lemma refill_step_counter:
  "counter (refill_step w s) = counter s \<or> counter (refill_step w s) = max_counter s"
  by (cases "at (refiller s)"; cases w) (simp_all add: refill_step_def)

lemma refill_step_Notified_counter [simp]: "counter (refill_step Notified s) = counter s"
  by (cases "at (refiller s)") (simp_all add: refill_step_def)

lemma refill_step_max_counter [simp]: "max_counter (refill_step w s) = max_counter s"
  by (cases "at (refiller s)"; cases w) (simp_all add: refill_step_def)

lemma refill_step_exit_flag [simp]: "exit (refill_step w s) = exit s"
  by (cases "at (refiller s)"; cases w) (simp_all add: refill_step_def)

lemma refill_step_period [simp]:
  "refillFrequencySeconds (refiller (refill_step w s)) = refillFrequencySeconds (refiller s)"
  by (cases "at (refiller s)"; cases w) (simp_all add: refill_step_def)

lemma request_max_counter [simp]: "max_counter (snd (request s)) = max_counter s"
  by (simp add: request_def)

lemma request_exit [simp]: "exit (snd (request s)) = exit s"
  by (simp add: request_def)

lemma request_refiller [simp]: "refiller (snd (request s)) = refiller s"
  by (simp add: request_def)

text \<open>
  Claim C1. In a state with \<open>capacity > 0\<close> and \<open>0 \<le> tokens \<le> capacity\<close>, \<open>request\<close>
  returns true and takes exactly one token when \<open>tokens > 0\<close>, and returns false and
  leaves the state as it is when \<open>tokens = 0\<close>. \<open>request\<close> is a total function to a
  boolean and a state: it has no error result, and in this range the decrement is exact
  (it does not wrap).
\<close>

theorem request_spec:
  assumes "0 < sint (max_counter s)"
    and "0 \<le> sint (counter s)"
    and "sint (counter s) \<le> sint (max_counter s)"
  shows "(0 < sint (counter s) \<longrightarrow>
            fst (request s) = True \<and>
            snd (request s) = s\<lparr>counter := counter s - 1\<rparr> \<and>
            sint (counter (snd (request s))) = sint (counter s) - 1)
       \<and> (sint (counter s) = 0 \<longrightarrow> request s = (False, s))"
proof (intro conjI impI)
  assume pos: "0 < sint (counter s)"
  then have nz: "counter s \<noteq> 0" by (rule sint_pos_nonzero)
  show "fst (request s) = True" using nz by (simp add: request_true)
  show "snd (request s) = s\<lparr>counter := counter s - 1\<rparr>" using nz by (simp add: request_true)
  have "sint (counter s - 1) = sint (counter s) - 1"
    using pos by (intro sint_dec) simp
  then show "sint (counter (snd (request s))) = sint (counter s) - 1"
    using nz by (simp add: request_true)
next
  assume "sint (counter s) = 0"
  then have "counter s = 0" by (simp only: sint_zero_iff)
  then show "request s = (False, s)" by (rule request_false)
qed

text \<open>
  The theorem at a bucket of capacity 3 holding 3 tokens (as constructed), and at the
  same bucket holding none.
\<close>

theorem request_spec_witness:
  "(0::int) < sint (max_counter (TokenBucket 3 1))
   \<and> 0 < sint (counter (TokenBucket 3 1))
   \<and> sint (counter (TokenBucket 3 1)) \<le> sint (max_counter (TokenBucket 3 1))
   \<and> request (TokenBucket 3 1) = (True, (TokenBucket 3 1)\<lparr>counter := 2\<rparr>)
   \<and> sint (counter (snd (request (TokenBucket 3 1)))) = 2
   \<and> sint (counter ((TokenBucket 3 1)\<lparr>counter := 0\<rparr>)) = 0
   \<and> request ((TokenBucket 3 1)\<lparr>counter := 0\<rparr>) = (False, (TokenBucket 3 1)\<lparr>counter := 0\<rparr>)"
  using request_spec [of "TokenBucket 3 1"] request_spec [of "(TokenBucket 3 1)\<lparr>counter := 0\<rparr>"]
  by (simp add: TokenBucket_def prod_eq_iff)

section \<open>Runs\<close>

lemma exec_Request:
  "exec (Request # es) s =
     (fst (request s) # fst (exec es (snd (request s))), snd (exec es (snd (request s))))"
  by (simp split: prod.splits)

lemma exec_Refiller: "exec (Refiller w # es) s = exec es (refill_step w s)"
  by (simp split: prod.splits)

lemma exec_Shutdown: "exec (Shutdown # es) s = exec es (set_exit s)"
  by (simp split: prod.splits)

lemma exec_append:
  "exec (es @ es') s =
     (fst (exec es s) @ fst (exec es' (snd (exec es s))), snd (exec es' (snd (exec es s))))"
  by (induction es arbitrary: s) (simp_all split: prod.splits)

lemmas exec_event = exec_Request exec_Refiller exec_Shutdown

lemma countdown:
  "k \<le> unat (counter s) \<Longrightarrow>
     exec (replicate k Request) s = (replicate k True, s\<lparr>counter := counter s - of_nat k\<rparr>)"
proof (induction k arbitrary: s)
  case 0
  then show ?case by simp
next
  case (Suc k)
  from Suc.prems have nz: "counter s \<noteq> 0" by (auto simp: unat_eq_0)
  let ?s' = "s\<lparr>counter := counter s - 1\<rparr>"
  have "unat (counter s - 1) = unat (counter s) - 1"
    using nz by (rule unat_minus_one)
  with Suc.prems have "k \<le> unat (counter ?s')" by simp
  from Suc.IH [OF this]
  have "exec (replicate k Request) ?s' = (replicate k True, s\<lparr>counter := counter s - of_nat (Suc k)\<rparr>)"
    by (simp add: algebra_simps)
  moreover have "request s = (True, ?s')" using nz by (rule request_true)
  ultimately show ?case
    by (simp add: exec_Request del: exec.simps of_nat_Suc)
qed

text \<open>Without a refill, a run grants at most as many requests as the word counts down.\<close>

lemma granted_le_unat:
  "Refiller TimedOut \<notin> set es \<Longrightarrow> count_list (fst (exec es s)) True \<le> unat (counter s)"
proof (induction es arbitrary: s)
  case Nil
  then show ?case by simp
next
  case (Cons e es)
  from Cons.prems have "Refiller TimedOut \<notin> set es" by simp
  then have IH: "count_list (fst (exec es s')) True \<le> unat (counter s')" for s'
    by (rule Cons.IH)
  show ?case
  proof (cases e)
    case Request
    show ?thesis
    proof (cases "counter s = 0")
      case True
      then show ?thesis using IH [of s] Request
        by (simp add: exec_Request request_false del: exec.simps)
    next
      case False
      then have "unat (counter s - 1) = unat (counter s) - 1" by (rule unat_minus_one)
      moreover have "0 < unat (counter s)" using False by (simp add: unat_gt_0)
      ultimately show ?thesis using IH [of "s\<lparr>counter := counter s - 1\<rparr>"] Request False
        by (simp add: exec_Request request_true del: exec.simps)
    qed
  next
    case (Refiller w)
    with Cons.prems have "w = Notified" by (cases w) auto
    then show ?thesis using IH [of "refill_step Notified s"] Refiller
      by (simp add: exec_Refiller del: exec.simps)
  next
    case Shutdown
    then show ?thesis using IH [of "set_exit s"]
      by (simp add: exec_Shutdown set_exit_def del: exec.simps)
  qed
qed

text \<open>
  Claim C2. From a full bucket of capacity \<open>n > 0\<close>, a run in which no refill happens
  (the refill thread never wakes on a timeout) grants at most \<open>n\<close> requests, whatever
  else is interleaved; the first \<open>n\<close> calls in a row return true and call \<open>n + 1\<close>
  returns false.
\<close>

theorem capacity_bound:
  assumes "0 < sint size'" and "Refiller TimedOut \<notin> set es"
  shows "count_list (fst (exec es (TokenBucket size' p))) True \<le> nat (sint size')
       \<and> fst (exec (replicate (nat (sint size') + 1) Request) (TokenBucket size' p))
           = replicate (nat (sint size')) True @ [False]"
proof
  have u: "unat size' = nat (sint size')" using assms(1) by (intro unat_of_nonneg) simp
  have "count_list (fst (exec es (TokenBucket size' p))) True \<le> unat (counter (TokenBucket size' p))"
    using assms(2) by (rule granted_le_unat)
  then show "count_list (fst (exec es (TokenBucket size' p))) True \<le> nat (sint size')"
    using u by (simp add: TokenBucket_def)
  let ?n = "nat (sint size')"
  have "?n \<le> unat (counter (TokenBucket size' p))" using u by (simp add: TokenBucket_def)
  then have run: "exec (replicate ?n Request) (TokenBucket size' p)
      = (replicate ?n True, (TokenBucket size' p)\<lparr>counter := counter (TokenBucket size' p) - of_nat ?n\<rparr>)"
    by (rule countdown)
  have "of_nat ?n = size'" using u [symmetric] by simp
  then have z: "counter (TokenBucket size' p) - of_nat ?n = 0" by (simp add: TokenBucket_def)
  have "replicate (?n + 1) Request = replicate ?n Request @ [Request]"
    by (simp add: replicate_append_same)
  then show "fst (exec (replicate (?n + 1) Request) (TokenBucket size' p)) = replicate ?n True @ [False]"
    using run z by (simp del: exec.simps replicate_Suc add: exec_append exec_Request request_false exec.simps(1))
qed

text \<open>The theorem at capacity 3, with a notified wake-up and the shutdown interleaved.\<close>

theorem capacity_bound_witness:
  "(0::int) < sint (3 :: cint)
   \<and> Refiller TimedOut \<notin> set [Request, Refiller Notified, Request, Request, Request, Shutdown, Request]
   \<and> count_list (fst (exec [Request, Refiller Notified, Request, Request, Request, Shutdown, Request] (TokenBucket 3 1))) True \<le> 3
   \<and> fst (exec [Request, Request, Request, Request] (TokenBucket 3 1)) = [True, True, True, False]"
  using capacity_bound [of 3 "[Request, Refiller Notified, Request, Request, Request, Shutdown, Request]" 1]
  by (simp add: numeral_eq_Suc)

section \<open>The invariant\<close>

lemma tokens_in_range_request: "tokens_in_range s \<Longrightarrow> tokens_in_range (snd (request s))"
proof (cases "counter s = 0")
  case True
  assume "tokens_in_range s"
  then show ?thesis using True by (simp add: request_false)
next
  case False
  assume inv: "tokens_in_range s"
  then have "0 \<le> sint (counter s)" by (simp add: tokens_in_range_def)
  moreover have "sint (counter s) \<noteq> 0" using False by (simp add: sint_zero_iff)
  ultimately have pos: "0 < sint (counter s)" by simp
  then have "sint (counter s - 1) = sint (counter s) - 1" by (intro sint_dec) simp
  then show ?thesis using inv pos False
    by (simp add: request_true tokens_in_range_def)
qed

lemma tokens_in_range_refill_step:
  assumes "tokens_in_range s"
  shows "tokens_in_range (refill_step w s)"
proof -
  from assms have "0 \<le> sint (max_counter s)" by (simp add: tokens_in_range_def)
  then have "tokens_in_range (s\<lparr>counter := max_counter s, refiller := r\<rparr>)" for r
    by (simp add: tokens_in_range_def)
  then show ?thesis using assms
    by (cases "at (refiller s)"; cases w) (simp_all add: refill_step_def tokens_in_range_def)
qed

lemma tokens_in_range_set_exit: "tokens_in_range s \<Longrightarrow> tokens_in_range (set_exit s)"
  by (simp add: tokens_in_range_def set_exit_def)

lemma tokens_in_range_exec: "tokens_in_range s \<Longrightarrow> tokens_in_range (snd (exec es s))"
proof (induction es arbitrary: s)
  case Nil
  then show ?case by simp
next
  case (Cons e es)
  show ?case
  proof (cases e)
    case Request
    then show ?thesis using Cons.IH [OF tokens_in_range_request [OF Cons.prems]]
      by (simp del: exec.simps add: exec_Request)
  next
    case (Refiller w)
    then show ?thesis using Cons.IH [OF tokens_in_range_refill_step [OF Cons.prems]]
      by (simp del: exec.simps add: exec_Refiller)
  next
    case Shutdown
    then show ?thesis using Cons.IH [OF tokens_in_range_set_exit [OF Cons.prems]]
      by (simp del: exec.simps add: exec_Shutdown)
  qed
qed

text \<open>
  Claim C4. A bucket constructed with \<open>capacity > 0\<close> starts with \<open>tokens = capacity\<close>;
  \<open>0 \<le> tokens \<le> capacity\<close> holds after construction, every \<open>request\<close> and every step
  of the refill thread preserves it, and so it holds after every run.
\<close>

theorem tokens_in_range_invariant:
  assumes "0 < sint size'"
  shows "counter (TokenBucket size' p) = size'
       \<and> max_counter (TokenBucket size' p) = size'
       \<and> tokens_in_range (TokenBucket size' p)
       \<and> (\<forall>s w. tokens_in_range s \<longrightarrow>
             tokens_in_range (snd (request s)) \<and> tokens_in_range (refill_step w s))
       \<and> (\<forall>es. tokens_in_range (snd (exec es (TokenBucket size' p))))"
proof -
  have init: "tokens_in_range (TokenBucket size' p)"
    using assms by (simp add: tokens_in_range_def TokenBucket_def)
  have "tokens_in_range (snd (exec es (TokenBucket size' p)))" for es
    using init by (rule tokens_in_range_exec)
  then show ?thesis
    using init tokens_in_range_request tokens_in_range_refill_step
    by (simp add: TokenBucket_def)
qed

text \<open>The theorem at capacity 3: after construction, after single steps and after a run.\<close>

theorem tokens_in_range_invariant_witness:
  "(0::int) < sint (3 :: cint)
   \<and> counter (TokenBucket 3 1) = 3
   \<and> tokens_in_range (TokenBucket 3 1)
   \<and> tokens_in_range (snd (request (TokenBucket 3 1)))
   \<and> tokens_in_range (refill_step TimedOut (refill_step Notified (snd (request (TokenBucket 3 1)))))
   \<and> tokens_in_range
       (snd (exec [Request, Refiller Notified, Request, Refiller TimedOut, Request, Request, Request,
                   Request, Shutdown, Refiller TimedOut, Request] (TokenBucket 3 1)))"
proof -
  have pos: "(0::int) < sint (3 :: cint)" by simp
  note inv = tokens_in_range_invariant [OF pos, of 1]
  from inv have step: "\<And>s w. tokens_in_range s \<Longrightarrow>
      tokens_in_range (snd (request s)) \<and> tokens_in_range (refill_step w s)"
    by blast
  from inv have a: "tokens_in_range (TokenBucket 3 1)" by blast
  from step [OF a] have b: "tokens_in_range (snd (request (TokenBucket 3 1)))" by blast
  from step [OF b] have c: "tokens_in_range (refill_step Notified (snd (request (TokenBucket 3 1))))"
    by blast
  from step [OF c] have d:
    "tokens_in_range (refill_step TimedOut (refill_step Notified (snd (request (TokenBucket 3 1)))))"
    by blast
  from inv show ?thesis using pos a b d by blast
qed

section \<open>The refill\<close>

text \<open>
  Claim C5. A refill step without a stop signal (the thread wakes on the timeout and
  \<^verbatim>\<open>exit_\<close> is clear) sets \<open>tokens\<close> to exactly the capacity, whatever the count was:
  a reset, not an increment.
\<close>

theorem refill_resets_to_capacity:
  assumes "at (refiller s) = InWait" and "\<not> exit s"
  shows "counter (refill_step TimedOut s) = max_counter s
       \<and> refill_step TimedOut s
           = s\<lparr>counter := max_counter s, refiller := (refiller s)\<lparr>at := LoopTop\<rparr>\<rparr>"
  using assms by (simp add: refill_step_timeout)

text \<open>The theorem at a bucket of capacity 3 that holds one token: the refill leaves 3.\<close>

theorem refill_resets_to_capacity_witness:
  "at (refiller (refill_step Notified ((TokenBucket 3 1)\<lparr>counter := 1\<rparr>))) = InWait
   \<and> \<not> exit (refill_step Notified ((TokenBucket 3 1)\<lparr>counter := 1\<rparr>))
   \<and> counter (refill_step Notified ((TokenBucket 3 1)\<lparr>counter := 1\<rparr>)) = 1
   \<and> counter (refill_step TimedOut (refill_step Notified ((TokenBucket 3 1)\<lparr>counter := 1\<rparr>))) = 3"
  using refill_resets_to_capacity [of "refill_step Notified ((TokenBucket 3 1)\<lparr>counter := 1\<rparr>)"]
  by (simp add: TokenBucket_def refill_step_def)

section \<open>Exhaustion and refill\<close>

text \<open>
  Claim C6. In a bucket of capacity \<open>n > 0\<close> that is exhausted (\<open>tokens = 0\<close>, so
  \<open>request\<close> returns false), after one refill step the next \<open>n\<close> calls return true
  and call \<open>n + 1\<close> returns false. For capacity 3, from construction: true, true, true,
  false, then after the refill true, true, true, false (the refill thread has entered
  its wait before the timeout).
\<close>

theorem refill_restores_capacity:
  assumes "0 < sint (max_counter s)" and "counter s = 0"
    and "\<not> exit s" and "at (refiller s) = InWait"
  shows "fst (request s) = False
       \<and> fst (exec (Refiller TimedOut # replicate (nat (sint (max_counter s)) + 1) Request) s)
           = replicate (nat (sint (max_counter s))) True @ [False]
       \<and> fst (exec [Refiller w, Request, Request, Request, Request,
                      Refiller TimedOut, Request, Request, Request, Request]
                (TokenBucket 3 p))
           = [True, True, True, False, True, True, True, False]"
proof (intro conjI)
  show "fst (request s) = False" using assms(2) by (simp add: request_false)
next
  let ?n = "nat (sint (max_counter s))"
  let ?t = "s\<lparr>counter := max_counter s, refiller := (refiller s)\<lparr>at := LoopTop\<rparr>\<rparr>"
  have t: "refill_step TimedOut s = ?t" using assms(3,4) by (simp add: refill_step_timeout)
  have u: "unat (max_counter s) = ?n" using assms(1) by (intro unat_of_nonneg) simp
  then have "?n \<le> unat (counter ?t)" by simp
  then have run: "exec (replicate ?n Request) ?t
      = (replicate ?n True, ?t\<lparr>counter := counter ?t - of_nat ?n\<rparr>)"
    by (rule countdown)
  have "of_nat ?n = max_counter s" using u [symmetric] by simp
  then have z: "counter ?t - of_nat ?n = 0" by simp
  have "replicate (?n + 1) Request = replicate ?n Request @ [Request]"
    by (simp add: replicate_append_same)
  then have "fst (exec (replicate (?n + 1) Request) ?t) = replicate ?n True @ [False]"
    using run z
    by (simp del: exec.simps replicate_Suc add: exec_append exec_Request request_false exec.simps(1))
  then show "fst (exec (Refiller TimedOut # replicate (?n + 1) Request) s) = replicate ?n True @ [False]"
    by (simp only: exec_Refiller t)
next
  show "fst (exec [Refiller w, Request, Request, Request, Request,
                      Refiller TimedOut, Request, Request, Request, Request]
                (TokenBucket 3 p))
           = [True, True, True, False, True, True, True, False]"
    by (simp add: request_def refill_step_def TokenBucket_def)
qed

text \<open>The theorem at the exhausted bucket of capacity 3 whose refill thread is waiting.\<close>

theorem refill_restores_capacity_witness:
  "(0::int) < sint (max_counter (refill_step Notified ((TokenBucket 3 1)\<lparr>counter := 0\<rparr>)))
   \<and> counter (refill_step Notified ((TokenBucket 3 1)\<lparr>counter := 0\<rparr>)) = 0
   \<and> \<not> exit (refill_step Notified ((TokenBucket 3 1)\<lparr>counter := 0\<rparr>))
   \<and> at (refiller (refill_step Notified ((TokenBucket 3 1)\<lparr>counter := 0\<rparr>))) = InWait
   \<and> fst (request (refill_step Notified ((TokenBucket 3 1)\<lparr>counter := 0\<rparr>))) = False
   \<and> fst (exec [Refiller TimedOut, Request, Request, Request, Request]
            (refill_step Notified ((TokenBucket 3 1)\<lparr>counter := 0\<rparr>)))
       = [True, True, True, False]"
  using refill_restores_capacity [of "refill_step Notified ((TokenBucket 3 1)\<lparr>counter := 0\<rparr>)"]
  by (simp add: TokenBucket_def refill_step_def numeral_eq_Suc)

section \<open>After the stop flag\<close>

lemma shared_refill_step_exit: "exit s \<Longrightarrow> shared (refill_step w s) = shared s"
  by (cases "at (refiller s)") (simp_all add: refill_step_def shared_def)

lemma request_shared:
  "shared s = shared t \<Longrightarrow>
     fst (request s) = fst (request t) \<and> shared (snd (request s)) = shared (snd (request t))"
  by (simp add: shared_def request_def)

lemma set_exit_shared: "shared s = shared t \<Longrightarrow> shared (set_exit s) = shared (set_exit t)"
  by (simp add: shared_def set_exit_def)

lemma exit_of_shared: "shared s = shared t \<Longrightarrow> exit s = exit t"
  by (simp add: shared_def)

text \<open>
  With the flag set, a run and the same run without the refill thread's steps give the
  same results and leave the same shared members.
\<close>

lemma exec_without_refiller:
  "exit s \<Longrightarrow> shared s = shared t \<Longrightarrow>
     fst (exec es s) = fst (exec (filter (\<lambda>e. \<not> is_refiller e) es) t)
     \<and> shared (snd (exec es s)) = shared (snd (exec (filter (\<lambda>e. \<not> is_refiller e) es) t))"
proof (induction es arbitrary: s t)
  case Nil
  then show ?case by simp
next
  case (Cons e es)
  show ?case
  proof (cases e)
    case Request
    have "exit (snd (request s))" using Cons.prems(1) by simp
    moreover have "shared (snd (request s)) = shared (snd (request t))"
      using request_shared [OF Cons.prems(2)] by simp
    ultimately show ?thesis
      using Cons.IH [of "snd (request s)" "snd (request t)"] request_shared [OF Cons.prems(2)] Request
      by (simp del: exec.simps add: exec_Request)
  next
    case (Refiller w)
    have "exit (refill_step w s)" using Cons.prems(1) by simp
    moreover have "shared (refill_step w s) = shared t"
      using Cons.prems by (simp add: shared_refill_step_exit)
    ultimately show ?thesis
      using Cons.IH [of "refill_step w s" t] Refiller
      by (simp del: exec.simps add: exec_Refiller)
  next
    case Shutdown
    have "exit (set_exit s)" by (simp add: set_exit_def)
    moreover have "shared (set_exit s) = shared (set_exit t)"
      using Cons.prems(2) by (rule set_exit_shared)
    ultimately show ?thesis
      using Cons.IH [of "set_exit s" "set_exit t"] Shutdown
      by (simp del: exec.simps add: exec_Shutdown)
  qed
qed

lemma exec_exit: "exit s \<Longrightarrow> exit (snd (exec es s))"
proof (induction es arbitrary: s)
  case Nil
  then show ?case by simp
next
  case (Cons e es)
  then show ?case
    by (cases e) (simp_all del: exec.simps add: exec_event set_exit_def)
qed

lemma join_after_exit:
  assumes "exit s"
  shows "join (w # ws) s = Some (s\<lparr>refiller := (refiller s)\<lparr>at := Returned\<rparr>\<rparr>)"
proof (cases "at (refiller s) = Returned")
  case True
  then show ?thesis by simp
next
  case False
  then have "refill_step w s = s\<lparr>refiller := (refiller s)\<lparr>at := Returned\<rparr>\<rparr>"
    using assms by (simp add: refill_step_exit)
  then show ?thesis using False by (cases ws) simp_all
qed

text \<open>
  Claim C7. Once \<^verbatim>\<open>exit_\<close> is set, the refill thread never writes \<open>tokens\<close> again:
  its next step, wherever it stands and however it wakes, sees the flag and returns
  with the count untouched; the flag stays set on every run, and the thread's steps
  change neither the count nor any result of such a run. The destructor sets the flag,
  and its \<^verbatim>\<open>join\<close> returns after one wake-up of the thread, the count as it was.
\<close>

theorem no_refill_after_exit:
  assumes "exit s"
  shows "counter (refill_step w s) = counter s
       \<and> at (refiller (refill_step w s)) = Returned
       \<and> exit (refill_step w s)
       \<and> exit (snd (exec es s))
       \<and> counter (snd (exec es s)) = counter (snd (exec (filter (\<lambda>e. \<not> is_refiller e) es) s))
       \<and> fst (exec es s) = fst (exec (filter (\<lambda>e. \<not> is_refiller e) es) s)
       \<and> exit (set_exit t)
       \<and> destructor (w # ws) t
           = Some (t\<lparr>exit := True, refiller := (refiller t)\<lparr>at := Returned\<rparr>\<rparr>)"
proof -
  have a: "counter (refill_step w s) = counter s \<and> at (refiller (refill_step w s)) = Returned"
    using assms by (cases "at (refiller s)") (simp_all add: refill_step_def)
  have b: "fst (exec es s) = fst (exec (filter (\<lambda>e. \<not> is_refiller e) es) s)
      \<and> shared (snd (exec es s)) = shared (snd (exec (filter (\<lambda>e. \<not> is_refiller e) es) s))"
    using assms by (intro exec_without_refiller) simp_all
  then have c: "counter (snd (exec es s)) = counter (snd (exec (filter (\<lambda>e. \<not> is_refiller e) es) s))"
    by (simp add: shared_def)
  have d: "exit (set_exit t)" by (simp add: set_exit_def)
  have "join (w # ws) (set_exit t)
      = Some ((set_exit t)\<lparr>refiller := (refiller (set_exit t))\<lparr>at := Returned\<rparr>\<rparr>)"
    using d by (rule join_after_exit)
  then have e: "destructor (w # ws) t
      = Some (t\<lparr>exit := True, refiller := (refiller t)\<lparr>at := Returned\<rparr>\<rparr>)"
    by (simp add: destructor_def set_exit_def)
  show ?thesis using a b c d e assms exec_exit [OF assms, of es] by simp
qed

text \<open>
  The theorem at a bucket of capacity 3 with 2 tokens left, its thread waiting, after
  the destructor has set the flag: the timeouts that follow refill nothing.
\<close>

theorem no_refill_after_exit_witness:
  "exit (set_exit (refill_step Notified (snd (request (TokenBucket 3 1)))))
   \<and> counter (set_exit (refill_step Notified (snd (request (TokenBucket 3 1))))) = 2
   \<and> counter (refill_step TimedOut (set_exit (refill_step Notified (snd (request (TokenBucket 3 1)))))) = 2
   \<and> at (refiller (refill_step TimedOut (set_exit (refill_step Notified (snd (request (TokenBucket 3 1)))))))
       = Returned
   \<and> exec [Refiller TimedOut, Request, Refiller TimedOut, Request, Refiller Notified, Request]
        (set_exit (refill_step Notified (snd (request (TokenBucket 3 1)))))
       = ([True, True, False],
          (TokenBucket 3 1)\<lparr>counter := 0, exit := True,
             refiller := \<lparr>refillFrequencySeconds = 1, at = Returned\<rparr>\<rparr>)"
proof -
  let ?s = "set_exit (refill_step Notified (snd (request (TokenBucket 3 1))))"
  have ex: "exit ?s" by (simp add: set_exit_def)
  note th = no_refill_after_exit [OF ex, of TimedOut
      "[Refiller TimedOut, Request, Refiller TimedOut, Request, Refiller Notified, Request]"]
  have "counter ?s = 2"
    by (simp add: set_exit_def refill_step_def request_def TokenBucket_def)
  moreover have "exec [Refiller TimedOut, Request, Refiller TimedOut, Request, Refiller Notified, Request] ?s
       = ([True, True, False],
          (TokenBucket 3 1)\<lparr>counter := 0, exit := True,
             refiller := \<lparr>refillFrequencySeconds = 1, at = Returned\<rparr>\<rparr>)"
    by (simp add: set_exit_def refill_step_def request_def TokenBucket_def)
  ultimately show ?thesis using th ex by simp
qed

section \<open>What stays fixed\<close>

lemma exec_fixed:
  "max_counter (snd (exec es s)) = max_counter s
   \<and> refillFrequencySeconds (refiller (snd (exec es s))) = refillFrequencySeconds (refiller s)"
proof (induction es arbitrary: s)
  case Nil
  then show ?case by simp
next
  case (Cons e es)
  then show ?case
    by (cases e) (simp_all del: exec.simps add: exec_event set_exit_def)
qed

text \<open>
  Claim C8. The capacity and the refill period never change: \<open>request\<close>, every step of
  the refill thread and the destructor's store leave them as they are, and so does every
  run. \<open>request\<close> writes nothing but \<open>tokens\<close>; a step of the refill thread writes
  nothing but \<open>tokens\<close> (and moves on in its own code); the destructor writes nothing but
  the stop flag.
\<close>

theorem capacity_and_period_fixed:
  "max_counter (snd (request s)) = max_counter s
   \<and> exit (snd (request s)) = exit s
   \<and> refiller (snd (request s)) = refiller s
   \<and> max_counter (refill_step w s) = max_counter s
   \<and> exit (refill_step w s) = exit s
   \<and> refillFrequencySeconds (refiller (refill_step w s)) = refillFrequencySeconds (refiller s)
   \<and> max_counter (set_exit s) = max_counter s
   \<and> counter (set_exit s) = counter s
   \<and> refiller (set_exit s) = refiller s
   \<and> max_counter (snd (exec es s)) = max_counter s
   \<and> refillFrequencySeconds (refiller (snd (exec es s))) = refillFrequencySeconds (refiller s)"
  using exec_fixed [of es s] by (simp add: set_exit_def)

section \<open>Capacity zero\<close>

lemma exec_zero:
  "counter s = 0 \<Longrightarrow> max_counter s = 0 \<Longrightarrow>
     fst (exec es s) = replicate (calls es) False \<and> counter (snd (exec es s)) = 0"
proof (induction es arbitrary: s)
  case Nil
  then show ?case by simp
next
  case (Cons e es)
  show ?case
  proof (cases e)
    case Request
    then show ?thesis using Cons.IH [of s] Cons.prems
      by (simp del: exec.simps add: exec_Request request_false)
  next
    case (Refiller w)
    have "counter (refill_step w s) = 0"
      using refill_step_counter [of w s] Cons.prems by auto
    then show ?thesis using Cons.IH [of "refill_step w s"] Cons.prems Refiller
      by (simp del: exec.simps add: exec_Refiller)
  next
    case Shutdown
    then show ?thesis using Cons.IH [of "set_exit s"] Cons.prems
      by (simp del: exec.simps add: exec_Shutdown set_exit_def)
  qed
qed

text \<open>
  Claim C10. With capacity 0 the constructor yields a bucket with no token; \<open>request\<close>
  returns false and leaves it as it is; a refill writes 0 again (the thread entering its
  wait and timing out gives back the constructed state); so on every run every call
  returns false and the count ends at 0.
\<close>

theorem zero_capacity_rejects_all:
  "max_counter (TokenBucket 0 p) = 0
   \<and> counter (TokenBucket 0 p) = 0
   \<and> request (TokenBucket 0 p) = (False, TokenBucket 0 p)
   \<and> refill_step TimedOut (refill_step w (TokenBucket 0 p)) = TokenBucket 0 p
   \<and> fst (exec es (TokenBucket 0 p)) = replicate (calls es) False
   \<and> counter (snd (exec es (TokenBucket 0 p))) = 0"
proof -
  have "fst (exec es (TokenBucket 0 p)) = replicate (calls es) False
      \<and> counter (snd (exec es (TokenBucket 0 p))) = 0"
    by (rule exec_zero) (simp_all add: TokenBucket_def)
  then show ?thesis
    by (simp add: TokenBucket_def request_def refill_step_def)
qed

section \<open>Arguments that are not positive\<close>

text \<open>
  Claim C3 says that construction fails when an argument is not positive. The
  constructor tests neither argument: with size \<open>-1\<close> and period \<open>0\<close> it yields a
  bucket, and the first \<open>request\<close> on it returns true.
\<close>

theorem construction_not_rejected:
  "sint (- 1 :: cint) \<le> 0
   \<and> sint (0 :: cint) \<le> 0
   \<and> TokenBucket (- 1) 0
       = \<lparr> max_counter = - 1, counter = - 1, exit = False,
           refiller = \<lparr> refillFrequencySeconds = 0, at = LoopTop \<rparr> \<rparr>
   \<and> request (TokenBucket (- 1) 0) = (True, (TokenBucket (- 1) 0)\<lparr>counter := - 2\<rparr>)"
  by (simp add: TokenBucket_def request_def)

text \<open>
  Claim C3, as the code has it. For every pair of arguments of which at least one is
  not positive, construction yields a bucket all the same: both counters are the size,
  the stop flag is clear, the refill thread is started with the period. The bucket
  satisfies \<open>0 \<le> tokens \<le> capacity\<close> exactly when the size is not negative, and its
  first \<open>request\<close> returns true exactly when the size is not 0.
\<close>

theorem construction_accepts_any_arguments:
  assumes "sint size' \<le> 0 \<or> sint p \<le> 0"
  shows "TokenBucket size' p
           = \<lparr> max_counter = size', counter = size', exit = False,
               refiller = \<lparr> refillFrequencySeconds = p, at = LoopTop \<rparr> \<rparr>
       \<and> tokens_in_range (TokenBucket size' p) = (0 \<le> sint size')
       \<and> fst (request (TokenBucket size' p)) = (size' \<noteq> 0)"
  by (simp add: TokenBucket_def request_def tokens_in_range_def)

text \<open>The theorem at size 3 and period 0.\<close>

theorem construction_accepts_any_arguments_witness:
  "(sint (3 :: cint) \<le> 0 \<or> sint (0 :: cint) \<le> 0)
   \<and> TokenBucket 3 0
       = \<lparr> max_counter = 3, counter = 3, exit = False,
           refiller = \<lparr> refillFrequencySeconds = 0, at = LoopTop \<rparr> \<rparr>
   \<and> fst (request (TokenBucket 3 0)) = True"
proof -
  have h: "sint (3 :: cint) \<le> 0 \<or> sint (0 :: cint) \<le> 0" by simp
  from construction_accepts_any_arguments [OF h]
  have "TokenBucket 3 0
       = \<lparr> max_counter = 3, counter = 3, exit = False,
           refiller = \<lparr> refillFrequencySeconds = 0, at = LoopTop \<rparr> \<rparr>"
    and "fst (request (TokenBucket 3 0)) = ((3 :: cint) \<noteq> 0)"
    by blast+
  then show ?thesis using h by simp
qed

section \<open>Negative capacity\<close>

text \<open>
  Claim C9 says that with a negative size the count decreases without bound and no call
  is ever refused. The count is a 32-bit \<^verbatim>\<open>int\<close>: with size \<open>-2^31\<close> the first
  \<open>request\<close> finds the count non-zero and decrements the least \<^verbatim>\<open>int\<close> (a signed
  overflow in C++); on the word the count is then \<open>2^31 - 1\<close>, so it has not decreased,
  and it is not below zero.
\<close>

theorem negative_capacity_counterexample:
  "sint (- 2147483648 :: cint) < 0
   \<and> sint (counter (TokenBucket (- 2147483648) 1)) = - 2147483648
   \<and> request (TokenBucket (- 2147483648) 1)
       = (True, (TokenBucket (- 2147483648) 1)\<lparr>counter := 2147483647\<rparr>)
   \<and> sint (counter (snd (request (TokenBucket (- 2147483648) 1)))) = 2147483647
   \<and> \<not> sint (counter (snd (request (TokenBucket (- 2147483648) 1))))
         < sint (counter (TokenBucket (- 2147483648) 1))"
  by (simp add: TokenBucket_def request_def)

text \<open>
  While the capacity is negative and the count is at most the capacity, a run free of
  overflow grants every call: the count stays below zero, and the refill only moves it
  back up to the capacity.
\<close>

lemma exec_negative:
  assumes "sint (max_counter s) < 0"
    and "sint (counter s) \<le> sint (max_counter s)"
    and "overflow_free es s"
  shows "fst (exec es s) = replicate (calls es) True
       \<and> sint (counter (snd (exec es s))) \<le> sint (max_counter s)"
  using assms
proof (induction es arbitrary: s)
  case Nil
  then show ?case by simp
next
  case (Cons e es)
  show ?case
  proof (cases e)
    case Request
    let ?s' = "s\<lparr>counter := counter s - 1\<rparr>"
    have neg: "sint (counter s) < 0" using Cons.prems by simp
    then have nz: "counter s \<noteq> 0" by auto
    then have rq: "request s = (True, ?s')" by (rule request_true)
    have "sint (counter s) \<noteq> - 2147483648" using Cons.prems(3) Request by simp
    then have dec: "sint (counter s - 1) = sint (counter s) - 1" by (rule sint_dec)
    have free: "overflow_free es ?s'" using Cons.prems(3) Request rq by simp
    have "fst (exec es ?s') = replicate (calls es) True
        \<and> sint (counter (snd (exec es ?s'))) \<le> sint (max_counter ?s')"
      using Cons.prems(1,2) dec free by (intro Cons.IH) simp_all
    then show ?thesis using Request rq
      by (simp del: exec.simps add: exec_Request)
  next
    case (Refiller w)
    let ?s' = "refill_step w s"
    have c: "sint (counter ?s') \<le> sint (max_counter s)"
      using refill_step_counter [of w s] Cons.prems(2) by auto
    have free: "overflow_free es ?s'" using Cons.prems(3) Refiller by simp
    have "fst (exec es ?s') = replicate (calls es) True
        \<and> sint (counter (snd (exec es ?s'))) \<le> sint (max_counter ?s')"
      using Cons.prems(1) c free by (intro Cons.IH) simp_all
    then show ?thesis using Refiller
      by (simp del: exec.simps add: exec_Refiller)
  next
    case Shutdown
    have free: "overflow_free es (set_exit s)" using Cons.prems(3) Shutdown by simp
    have "fst (exec es (set_exit s)) = replicate (calls es) True
        \<and> sint (counter (snd (exec es (set_exit s)))) \<le> sint (max_counter (set_exit s))"
      using Cons.prems(1,2) free by (intro Cons.IH) (simp_all add: set_exit_def)
    then show ?thesis using Shutdown
      by (simp del: exec.simps add: exec_Shutdown set_exit_def)
  qed
qed

text \<open>Calls in a row are free of overflow as long as they do not pass \<open>-2^31\<close>.\<close>

lemma overflow_free_replicate:
  "int k \<le> sint (counter s) + 2147483648 \<Longrightarrow> sint (counter s) < 0 \<Longrightarrow>
     overflow_free (replicate k Request) s"
proof (induction k arbitrary: s)
  case 0
  then show ?case by simp
next
  case (Suc k)
  let ?s' = "s\<lparr>counter := counter s - 1\<rparr>"
  have nz: "counter s \<noteq> 0" using Suc.prems(2) by auto
  then have rq: "request s = (True, ?s')" by (rule request_true)
  have ne: "sint (counter s) \<noteq> - 2147483648" using Suc.prems(1) by simp
  then have dec: "sint (counter s - 1) = sint (counter s) - 1" by (rule sint_dec)
  have "overflow_free (replicate k Request) ?s'"
    using Suc.prems dec by (intro Suc.IH) simp_all
  then show ?case using ne rq by simp
qed

text \<open>
  Claim C9, as the code has it. For every negative size \<open>n\<close> construction yields a
  bucket with \<open>tokens = n\<close>. On every run in which no call is made at the count
  \<open>-2^31\<close> (refills interleaved or not, however many calls), every \<open>request\<close> returns
  true, the test being \<open>tokens \<noteq> 0\<close>, and the count stays at or below \<open>n\<close>, so below
  zero; a further call made above \<open>-2^31\<close> returns true and takes the count down by
  exactly one. \<open>k \<le> n + 2^31\<close> calls in a row are such a run and leave the count at
  \<open>n - k\<close>. The count is never below \<open>-2^31\<close>, on any run.
\<close>

theorem negative_capacity_admits:
  assumes "sint size' < 0"
    and "overflow_free es (TokenBucket size' p)"
  shows "counter (TokenBucket size' p) = size'
       \<and> fst (exec es (TokenBucket size' p)) = replicate (calls es) True
       \<and> sint (counter (snd (exec es (TokenBucket size' p)))) \<le> sint size'
       \<and> sint (counter (snd (exec es (TokenBucket size' p)))) < 0
       \<and> (sint (counter (snd (exec es (TokenBucket size' p)))) \<noteq> - 2147483648 \<longrightarrow>
            fst (request (snd (exec es (TokenBucket size' p)))) = True
            \<and> sint (counter (snd (request (snd (exec es (TokenBucket size' p))))))
                = sint (counter (snd (exec es (TokenBucket size' p)))) - 1)
       \<and> (int k \<le> sint size' + 2147483648 \<longrightarrow>
            overflow_free (replicate k Request) (TokenBucket size' p)
            \<and> fst (exec (replicate k Request) (TokenBucket size' p)) = replicate k True
            \<and> sint (counter (snd (exec (replicate k Request) (TokenBucket size' p))))
                = sint size' - int k)
       \<and> - 2147483648 \<le> sint (counter (snd (exec es' (TokenBucket size' p))))"
proof -
  let ?b = "TokenBucket size' p"
  let ?t = "snd (exec es ?b)"
  have b: "max_counter ?b = size'" "counter ?b = size'" by (simp_all add: TokenBucket_def)
  have "fst (exec es ?b) = replicate (calls es) True
      \<and> sint (counter ?t) \<le> sint (max_counter ?b)"
    using assms by (intro exec_negative) (simp_all add: b)
  then have run: "fst (exec es ?b) = replicate (calls es) True"
    and le: "sint (counter ?t) \<le> sint size'"
    by (simp_all add: b)
  from le assms(1) have neg: "sint (counter ?t) < 0" by simp
  have next_call: "fst (request ?t) = True
      \<and> sint (counter (snd (request ?t))) = sint (counter ?t) - 1"
    if ne: "sint (counter ?t) \<noteq> - 2147483648"
  proof -
    have "counter ?t \<noteq> 0" using neg by auto
    then have "request ?t = (True, ?t\<lparr>counter := counter ?t - 1\<rparr>)" by (rule request_true)
    moreover have "sint (counter ?t - 1) = sint (counter ?t) - 1" using ne by (rule sint_dec)
    ultimately show ?thesis by simp
  qed
  have row: "overflow_free (replicate k Request) ?b
      \<and> fst (exec (replicate k Request) ?b) = replicate k True
      \<and> sint (counter (snd (exec (replicate k Request) ?b))) = sint size' - int k"
    if k: "int k \<le> sint size' + 2147483648"
  proof -
    have free: "overflow_free (replicate k Request) ?b"
      using k assms(1) by (intro overflow_free_replicate) (simp_all add: b)
    have "int k \<le> uint size'" using uint_of_neg [OF assms(1)] k by linarith
    then have "k \<le> nat (uint size')" by linarith
    then have "k \<le> unat (counter ?b)" by (simp add: b)
    then have "exec (replicate k Request) ?b
        = (replicate k True, ?b\<lparr>counter := counter ?b - of_nat k\<rparr>)"
      by (rule countdown)
    moreover have "sint (size' - of_nat k) = sint size' - int k"
      using k by (rule sint_sub_nat)
    ultimately have "fst (exec (replicate k Request) ?b) = replicate k True"
      and "sint (counter (snd (exec (replicate k Request) ?b))) = sint size' - int k"
      by (simp_all add: b)
    with free show ?thesis by (intro conjI)
  qed
  have lo: "- 2147483648 \<le> sint (counter (snd (exec es' ?b)))"
    using sint_ge [of "counter (snd (exec es' ?b))"] by simp
  from b(2) run le neg next_call row lo show ?thesis by (intro conjI impI) simp_all
qed

text \<open>
  The theorem at size \<open>-2^31 + 1\<close>: a call, a refill and a second call. Both calls are
  granted and neither is made at \<open>-2^31\<close>, though the count can take one decrement only;
  the count ends at \<open>-2^31\<close>, where a third call would overflow. One call in a row
  (\<open>k = 1\<close>) ends there too. And at size \<open>-2\<close>, after a call and a refill: the next
  call is granted and takes the count from \<open>-2\<close> to \<open>-3\<close>.
\<close>

theorem negative_capacity_admits_witness:
  "sint (- 2147483647 :: cint) < 0
   \<and> overflow_free [Request, Refiller Notified, Refiller TimedOut, Request]
        (TokenBucket (- 2147483647) 1)
   \<and> fst (exec [Request, Refiller Notified, Refiller TimedOut, Request] (TokenBucket (- 2147483647) 1))
       = [True, True]
   \<and> sint (counter (snd (exec [Request, Refiller Notified, Refiller TimedOut, Request]
                            (TokenBucket (- 2147483647) 1)))) = - 2147483648
   \<and> fst (exec [Request] (TokenBucket (- 2147483647) 1)) = [True]
   \<and> sint (counter (snd (exec [Request] (TokenBucket (- 2147483647) 1)))) = - 2147483648
   \<and> sint (- 2 :: cint) < 0
   \<and> overflow_free [Request, Refiller Notified, Refiller TimedOut] (TokenBucket (- 2) 1)
   \<and> sint (counter (snd (exec [Request, Refiller Notified, Refiller TimedOut]
                            (TokenBucket (- 2) 1)))) = - 2
   \<and> fst (request (snd (exec [Request, Refiller Notified, Refiller TimedOut]
                          (TokenBucket (- 2) 1)))) = True
   \<and> sint (counter (snd (request (snd (exec [Request, Refiller Notified, Refiller TimedOut]
                                          (TokenBucket (- 2) 1)))))) = - 3"
proof -
  let ?es = "[Request, Refiller Notified, Refiller TimedOut, Request]"
  let ?b = "TokenBucket (- 2147483647) 1"
  have neg: "sint (- 2147483647 :: cint) < 0" by simp
  have free: "overflow_free ?es ?b"
    by (simp add: TokenBucket_def request_def refill_step_def)
  have k: "int 1 \<le> sint (- 2147483647 :: cint) + 2147483648" by simp
  have r: "replicate 1 Request = [Request]" by simp
  have c: "replicate (calls ?es) True = [True, True]" by simp
  have fin: "sint (counter (snd (exec ?es ?b))) = - 2147483648"
    by (simp add: TokenBucket_def request_def refill_step_def)
  from negative_capacity_admits [OF neg free, of 1]
  have "fst (exec ?es ?b) = replicate (calls ?es) True"
    and "fst (exec (replicate 1 Request) ?b) = replicate 1 True"
    and "sint (counter (snd (exec (replicate 1 Request) ?b))) = sint (- 2147483647 :: cint) - int 1"
    using k by blast+
  then have first: "fst (exec ?es ?b) = [True, True]"
    "fst (exec [Request] ?b) = [True]"
    "sint (counter (snd (exec [Request] ?b))) = - 2147483648"
    by (simp_all only: c r) simp_all
  let ?fs = "[Request, Refiller Notified, Refiller TimedOut]"
  let ?c = "TokenBucket (- 2) 1"
  have neg2: "sint (- 2 :: cint) < 0" by simp
  have free2: "overflow_free ?fs ?c"
    by (simp add: TokenBucket_def request_def refill_step_def)
  have fin2: "sint (counter (snd (exec ?fs ?c))) = - 2"
    by (simp add: TokenBucket_def request_def refill_step_def)
  then have ne2: "sint (counter (snd (exec ?fs ?c))) \<noteq> - 2147483648" by simp
  from negative_capacity_admits [OF neg2 free2]
  have "fst (request (snd (exec ?fs ?c))) = True"
    and "sint (counter (snd (request (snd (exec ?fs ?c)))))
         = sint (counter (snd (exec ?fs ?c))) - 1"
    using ne2 by blast+
  then have second: "fst (request (snd (exec ?fs ?c))) = True"
    "sint (counter (snd (request (snd (exec ?fs ?c))))) = - 3"
    by (simp_all only: fin2)
  from neg free first fin neg2 free2 fin2 second show ?thesis by (intro conjI)
qed

text \<open>
  Where the decrement of \<open>-2^31\<close> wraps, as it does on the word, the count of a bucket
  of size \<open>-1\<close> reaches 0 after \<open>2^32 - 1\<close> calls in a row, and the next call is
  refused.
\<close>

lemma wrapped_bucket_rejects:
  "fst (exec (replicate 4294967295 Request @ [Request]) (TokenBucket (- 1) 1))
     = replicate 4294967295 True @ [False]"
proof -
  let ?b = "TokenBucket (- 1) 1"
  have "(4294967295::nat) \<le> unat (counter ?b)"
    by (simp add: TokenBucket_def unsigned_minus_1_eq_mask mask_eq_exp_minus_1)
  then have "exec (replicate 4294967295 Request) ?b
      = (replicate 4294967295 True, ?b\<lparr>counter := counter ?b - of_nat 4294967295\<rparr>)"
    by (rule countdown)
  moreover have "counter ?b - of_nat 4294967295 = 0" by (simp add: TokenBucket_def)
  ultimately show ?thesis
    by (simp del: exec.simps add: exec_append exec_Request request_false exec.simps(1))
qed

end
